theory Spec2Isabelle
  imports Main "HOL-Library.Sublist"
begin

section \<open>Word search solver: data model\<close>

text \<open>
  The program is \<^verbatim>\<open>src/word_search.py\<close>. A Python \<^verbatim>\<open>str\<close> is a \<open>string\<close>; a grid is
  a \<^verbatim>\<open>List[List[str]]\<close>, so a cell is itself a \<open>string\<close> (the loader puts one
  whitespace-separated token in each cell). Python integers are \<open>int\<close>. An exception
  is the left injection of a sum.
\<close>

datatype py_error = IndexError

type_synonym grid = "string list list"

text \<open>A result tuple \<^verbatim>\<open>(word, start_row_1based, start_col_1based, direction)\<close>.\<close>

type_synonym match = "string \<times> int \<times> int \<times> string"

text \<open>
  Python's \<^verbatim>\<open>xs[i]\<close> on a list: an index in \<open>[0, len)\<close> reads from the front, an index in
  \<open>[-len, 0)\<close> reads from the back, anything else raises \<^verbatim>\<open>IndexError\<close>.
\<close>

definition py_getitem :: "'a list \<Rightarrow> int \<Rightarrow> py_error + 'a" where
  "py_getitem xs i =
     (if 0 \<le> i \<and> i < int (length xs) then Inr (xs ! nat i)
      else if i < 0 \<and> - int (length xs) \<le> i then Inr (xs ! nat (int (length xs) + i))
      else Inl IndexError)"

section \<open>Direction table\<close>

definition get_directions :: "(int \<times> int \<times> string) list" where
  "get_directions =
     [(0, 1, ''horizontal_right''),
      (0, -1, ''horizontal_left''),
      (1, 0, ''vertical_down''),
      (-1, 0, ''vertical_up''),
      (1, 1, ''diagonal_down_right''),
      (1, -1, ''diagonal_down_left''),
      (-1, 1, ''diagonal_up_right''),
      (-1, -1, ''diagonal_up_left'')]"

section \<open>Position validator\<close>

text \<open>
  \<^verbatim>\<open>return 0 <= row < len(grid) and 0 <= col < len(grid[0])\<close>.
  The \<^verbatim>\<open>and\<close> is short-circuit: \<^verbatim>\<open>grid[0]\<close> is read only when the row test has passed.
\<close>

definition is_valid_position :: "grid \<Rightarrow> int \<Rightarrow> int \<Rightarrow> py_error + bool" where
  "is_valid_position grid row col =
     (if 0 \<le> row \<and> row < int (length grid) then
        (case py_getitem grid 0 of
           Inl e \<Rightarrow> Inl e
         | Inr row0 \<Rightarrow> Inr (0 \<le> col \<and> col < int (length row0)))
      else Inr False)"

section \<open>Directional matcher\<close>

text \<open>
  The loop \<^verbatim>\<open>for i, char in enumerate(word)\<close> of \<^verbatim>\<open>find_word_in_direction\<close>, from
  index \<open>i\<close> on. The test
  \<^verbatim>\<open>not is_valid_position(grid, row, col) or grid[row][col] != char\<close> is short-circuit,
  and \<^verbatim>\<open>char\<close> is a one-character \<^verbatim>\<open>str\<close>.
\<close>

fun find_word_loop :: "grid \<Rightarrow> string \<Rightarrow> int \<Rightarrow> int \<Rightarrow> int \<Rightarrow> int \<Rightarrow> int \<Rightarrow> py_error + bool" where
  "find_word_loop grid [] i start_row start_col delta_row delta_col = Inr True"
| "find_word_loop grid (char # rest) i start_row start_col delta_row delta_col =
     (let row = start_row + i * delta_row;
          col = start_col + i * delta_col
      in case is_valid_position grid row col of
           Inl e \<Rightarrow> Inl e
         | Inr valid \<Rightarrow>
             if \<not> valid then Inr False
             else (case py_getitem grid row of
                     Inl e \<Rightarrow> Inl e
                   | Inr line \<Rightarrow>
                       (case py_getitem line col of
                          Inl e \<Rightarrow> Inl e
                        | Inr cell \<Rightarrow>
                            if cell \<noteq> [char] then Inr False
                            else find_word_loop grid rest (i + 1)
                                   start_row start_col delta_row delta_col)))"

definition find_word_in_direction ::
    "grid \<Rightarrow> string \<Rightarrow> int \<Rightarrow> int \<Rightarrow> int \<Rightarrow> int \<Rightarrow> py_error + bool" where
  "find_word_in_direction grid word start_row start_col delta_row delta_col =
     find_word_loop grid word 0 start_row start_col delta_row delta_col"

section \<open>Grid searcher\<close>

text \<open>
  The three nested loops of \<^verbatim>\<open>search_for_words\<close> for one word. Each returns
  \<open>Some m\<close> when it has appended \<open>m\<close> and left through \<^verbatim>\<open>break\<close>
  (\<^verbatim>\<open>word_found = True\<close>), and \<open>None\<close> when it ran to its end.
\<close>

fun try_directions ::
    "grid \<Rightarrow> string \<Rightarrow> nat \<Rightarrow> nat \<Rightarrow> (int \<times> int \<times> string) list \<Rightarrow> py_error + match option" where
  "try_directions grid word start_row start_col [] = Inr None"
| "try_directions grid word start_row start_col ((delta_row, delta_col, direction) # ds) =
     (case find_word_in_direction grid word (int start_row) (int start_col) delta_row delta_col of
        Inl e \<Rightarrow> Inl e
      | Inr found \<Rightarrow>
          if found then Inr (Some (word, int start_row + 1, int start_col + 1, direction))
          else try_directions grid word start_row start_col ds)"

fun scan_cols :: "grid \<Rightarrow> string \<Rightarrow> nat \<Rightarrow> nat list \<Rightarrow> py_error + match option" where
  "scan_cols grid word start_row [] = Inr None"
| "scan_cols grid word start_row (start_col # cs) =
     (case try_directions grid word start_row start_col get_directions of
        Inl e \<Rightarrow> Inl e
      | Inr (Some m) \<Rightarrow> Inr (Some m)
      | Inr None \<Rightarrow> scan_cols grid word start_row cs)"

text \<open>\<^verbatim>\<open>range(len(grid[0]))\<close> is evaluated anew for each start row.\<close>

fun scan_rows :: "grid \<Rightarrow> string \<Rightarrow> nat list \<Rightarrow> py_error + match option" where
  "scan_rows grid word [] = Inr None"
| "scan_rows grid word (start_row # rs) =
     (case py_getitem grid 0 of
        Inl e \<Rightarrow> Inl e
      | Inr row0 \<Rightarrow>
          (case scan_cols grid word start_row [0..<length row0] of
             Inl e \<Rightarrow> Inl e
           | Inr (Some m) \<Rightarrow> Inr (Some m)
           | Inr None \<Rightarrow> scan_rows grid word rs))"

text \<open>The outer loop \<^verbatim>\<open>for word in words\<close>, threading \<^verbatim>\<open>found_words\<close>.\<close>

fun search_loop :: "grid \<Rightarrow> string list \<Rightarrow> match list \<Rightarrow> py_error + match list" where
  "search_loop grid [] found_words = Inr found_words"
| "search_loop grid (word # ws) found_words =
     (case scan_rows grid word [0..<length grid] of
        Inl e \<Rightarrow> Inl e
      | Inr None \<Rightarrow> search_loop grid ws found_words
      | Inr (Some m) \<Rightarrow> search_loop grid ws (found_words @ [m]))"

definition search_for_words :: "grid \<Rightarrow> string list \<Rightarrow> py_error + match list" where
  "search_for_words grid words = search_loop grid words []"

section \<open>Loaders\<close>

text \<open>
  The loaders read a text file line by line. The model takes the text of the file (the
  path and \<^verbatim>\<open>open\<close> are outside it) and covers ASCII text: \<^verbatim>\<open>str.strip\<close>,
  \<^verbatim>\<open>str.split\<close> and \<^verbatim>\<open>str.upper\<close> are modelled on the characters below code 128.
\<close>

definition py_isspace :: "char \<Rightarrow> bool" where
  "py_isspace c \<longleftrightarrow>
     c \<in> set [CHR 0x09, CHR 0x0A, CHR 0x0B, CHR 0x0C, CHR 0x0D,
              CHR 0x1C, CHR 0x1D, CHR 0x1E, CHR 0x1F, CHR 0x20]"

definition py_strip :: "string \<Rightarrow> string" where
  "py_strip s = rev (dropWhile py_isspace (rev (dropWhile py_isspace s)))"

text \<open>\<^verbatim>\<open>s.split()\<close>: the maximal runs of non-whitespace characters, in order.\<close>

fun py_split_loop :: "string \<Rightarrow> string \<Rightarrow> string list" where
  "py_split_loop tok [] = (if tok = [] then [] else [tok])"
| "py_split_loop tok (c # cs) =
     (if py_isspace c then (if tok = [] then py_split_loop [] cs else tok # py_split_loop [] cs)
      else py_split_loop (tok @ [c]) cs)"

definition py_split :: "string \<Rightarrow> string list" where
  "py_split s = py_split_loop [] s"

text \<open>The letters \<^verbatim>\<open>a\<close> to \<^verbatim>\<open>z\<close>, by character code.\<close>

definition ascii_lower :: "char \<Rightarrow> bool" where
  "ascii_lower c \<longleftrightarrow> (97::nat) \<le> of_char c \<and> of_char c \<le> (122::nat)"

definition py_upper_char :: "char \<Rightarrow> char" where
  "py_upper_char c = (if ascii_lower c then char_of (of_char c - (32::nat)) else c)"

definition py_upper :: "string \<Rightarrow> string" where
  "py_upper s = map py_upper_char s"

text \<open>
  \<^verbatim>\<open>for line in f\<close> on a file opened in text mode: a line ends after a line feed, a
  carriage return or the pair of them, each read as one line feed; the last line may
  have no terminator.
\<close>

fun py_readlines :: "string \<Rightarrow> string \<Rightarrow> string list" where
  "py_readlines cur [] = (if cur = [] then [] else [cur])"
| "py_readlines cur (c # cs) =
     (if c = CHR 0x0A then (cur @ [CHR 0x0A]) # py_readlines [] cs
      else if c = CHR 0x0D then
        (case cs of
           [] \<Rightarrow> [cur @ [CHR 0x0A]]
         | c' # cs' \<Rightarrow>
             if c' = CHR 0x0A then (cur @ [CHR 0x0A]) # py_readlines [] cs'
             else (cur @ [CHR 0x0A]) # py_readlines [] (c' # cs'))
      else py_readlines (cur @ [c]) cs)"

fun load_grid_loop :: "string list \<Rightarrow> grid \<Rightarrow> grid" where
  "load_grid_loop [] grid = grid"
| "load_grid_loop (line # ls) grid =
     (let line' = py_strip line
      in if line' \<noteq> []
         then load_grid_loop ls (grid @ [filter (\<lambda>char. char \<noteq> []) (py_split line')])
         else load_grid_loop ls grid)"

definition load_grid :: "string \<Rightarrow> grid" where
  "load_grid text = load_grid_loop (py_readlines [] text) []"

fun load_words_loop :: "string list \<Rightarrow> string list \<Rightarrow> string list" where
  "load_words_loop [] words = words"
| "load_words_loop (line # ls) words =
     (let word = py_upper (py_strip line)
      in if word \<noteq> [] then load_words_loop ls (words @ [word])
         else load_words_loop ls words)"

definition load_words :: "string \<Rightarrow> string list" where
  "load_words text = load_words_loop (py_readlines [] text) []"

section \<open>Notions of the specification\<close>

text \<open>A grid of \<open>R\<close> rows that all have \<open>C\<close> cells.\<close>

definition rectangular :: "grid \<Rightarrow> nat \<Rightarrow> nat \<Rightarrow> bool" where
  "rectangular grid R C \<longleftrightarrow> length grid = R \<and> list_all (\<lambda>line. length line = C) grid"

text \<open>No row is shorter than the first one; the empty grid and every rectangular grid are so.\<close>

definition no_short_rows :: "grid \<Rightarrow> bool" where
  "no_short_rows grid =
     (case grid of [] \<Rightarrow> True | row0 # _ \<Rightarrow> list_all (\<lambda>line. length row0 \<le> length line) grid)"

text \<open>
  The position \<open>(row, col)\<close> is inside the bounds that \<^verbatim>\<open>is_valid_position\<close> tests and the
  cell there is the one-character string of \<open>char\<close>.
\<close>

definition cell_is :: "grid \<Rightarrow> int \<Rightarrow> int \<Rightarrow> char \<Rightarrow> bool" where
  "cell_is grid row col char \<longleftrightarrow>
     0 \<le> row \<and> row < int (length grid) \<and> 0 \<le> col \<and> col < int (length (hd grid))
     \<and> grid ! nat row ! nat col = [char]"

text \<open>The matcher accepts \<open>word\<close> from the start cell \<open>(r, c)\<close> along the table entry \<open>d\<close>.\<close>

definition word_at :: "grid \<Rightarrow> string \<Rightarrow> nat \<Rightarrow> nat \<Rightarrow> int \<times> int \<times> string \<Rightarrow> bool" where
  "word_at grid word r c d \<longleftrightarrow>
     find_word_in_direction grid word (int r) (int c) (fst d) (fst (snd d)) = Inr True"

text \<open>The word can be read somewhere in the grid: from some start cell along some table entry.\<close>

definition occurs :: "grid \<Rightarrow> string \<Rightarrow> bool" where
  "occurs grid word \<longleftrightarrow>
     (\<exists>r\<in>{0..<length grid}. \<exists>c\<in>{0..<length (hd grid)}. \<exists>d\<in>set get_directions.
        word_at grid word r c d)"


section \<open>Position validator: results\<close>

lemma py_getitem_0: "xs \<noteq> [] \<Longrightarrow> py_getitem xs 0 = Inr (hd xs)"
  by (cases xs) (simp_all add: py_getitem_def)

lemma rectangular_hd: "rectangular grid R C \<Longrightarrow> 0 < R \<Longrightarrow> length (hd grid) = C"
  by (cases grid) (simp_all add: rectangular_def)

text \<open>
  C6. \<^verbatim>\<open>is_valid_position\<close> has no failure mode: for every grid, the empty one too, and
  all integers \<open>row\<close> and \<open>col\<close> it returns a boolean and does not raise.
\<close>

theorem is_valid_position_total:
  "\<exists>b. is_valid_position grid row col = Inr b"
proof (cases "0 \<le> row \<and> row < int (length grid)")
  case True
  then have "grid \<noteq> []" by auto
  then show ?thesis using True by (simp add: is_valid_position_def py_getitem_0)
next
  case False
  then have "is_valid_position grid row col = Inr False"
    unfolding is_valid_position_def by (simp only: if_False)
  then show ?thesis by blast
qed

text \<open>
  C4. On a rectangular grid of \<open>R \<ge> 1\<close> rows and \<open>C\<close> columns, \<^verbatim>\<open>is_valid_position\<close>
  returns true exactly when \<open>0 \<le> row < R\<close> and \<open>0 \<le> col < C\<close>.
\<close>

theorem is_valid_position_iff:
  assumes "rectangular grid R C" and "0 < R"
  shows "is_valid_position grid row col =
           Inr (0 \<le> row \<and> row < int R \<and> 0 \<le> col \<and> col < int C)"
proof -
  from assms have ne: "grid \<noteq> []" and len: "length grid = R"
    by (auto simp: rectangular_def)
  from assms have "length (hd grid) = C" by (rule rectangular_hd)
  with ne len show ?thesis
    by (auto simp: is_valid_position_def py_getitem_0)
qed

theorem is_valid_position_iff_witness:
  "rectangular [[''A'', ''B''], [''C'', ''D'']] 2 2 \<and> (0::nat) < 2
   \<and> is_valid_position [[''A'', ''B''], [''C'', ''D'']] 1 1 = Inr True
   \<and> is_valid_position [[''A'', ''B''], [''C'', ''D'']] 2 0 = Inr False
   \<and> is_valid_position [[''A'', ''B''], [''C'', ''D'']] 0 (-1) = Inr False"
proof -
  have h: "rectangular [[''A'', ''B''], [''C'', ''D'']] 2 2"
    by (simp add: rectangular_def)
  show ?thesis
    using h is_valid_position_iff [OF h, of 1 1] is_valid_position_iff [OF h, of 2 0]
      is_valid_position_iff [OF h, of 0 "-1"]
    by simp
qed

section \<open>Directional matcher: results\<close>

lemma is_valid_position_eq:
  "is_valid_position grid row col =
     Inr (0 \<le> row \<and> row < int (length grid) \<and> 0 \<le> col \<and> col < int (length (hd grid)))"
proof (cases grid)
  case Nil
  then show ?thesis by (auto simp: is_valid_position_def)
next
  case (Cons a list)
  then show ?thesis by (auto simp: is_valid_position_def py_getitem_0)
qed

lemma no_short_rows_nth:
  assumes "no_short_rows grid" and "r < length grid"
  shows "length (hd grid) \<le> length (grid ! r)"
proof (cases grid)
  case Nil
  with assms show ?thesis by simp
next
  case (Cons a list)
  with assms have "list_all (\<lambda>line. length a \<le> length line) grid"
    by (simp add: no_short_rows_def)
  with assms(2) have "length a \<le> length (grid ! r)"
    by (simp add: list_all_length)
  with Cons show ?thesis by simp
qed

lemma rectangular_no_short_rows: "rectangular grid R C \<Longrightarrow> no_short_rows grid"
  by (cases grid) (auto simp: rectangular_def no_short_rows_def list_all_iff)

lemma py_getitem_nat: "0 \<le> i \<Longrightarrow> i < int (length xs) \<Longrightarrow> py_getitem xs i = Inr (xs ! nat i)"
  by (simp add: py_getitem_def)

lemma find_word_loop_step:
  assumes "no_short_rows grid"
  shows "find_word_loop grid (char # rest) i start_row start_col delta_row delta_col =
     (if 0 \<le> start_row + i * delta_row \<and> start_row + i * delta_row < int (length grid)
         \<and> 0 \<le> start_col + i * delta_col \<and> start_col + i * delta_col < int (length (hd grid))
         \<and> grid ! nat (start_row + i * delta_row) ! nat (start_col + i * delta_col) = [char]
      then find_word_loop grid rest (i + 1) start_row start_col delta_row delta_col
      else Inr False)"
proof -
  let ?row = "start_row + i * delta_row" and ?col = "start_col + i * delta_col"
  show ?thesis
  proof (cases "0 \<le> ?row \<and> ?row < int (length grid) \<and> 0 \<le> ?col \<and> ?col < int (length (hd grid))")
    case False
    then show ?thesis by (auto simp: is_valid_position_eq Let_def)
  next
    case True
    then have "nat ?row < length grid" by (simp add: nat_less_iff)
    with assms have "length (hd grid) \<le> length (grid ! nat ?row)" by (rule no_short_rows_nth)
    with True have c: "?col < int (length (grid ! nat ?row))" by simp
    from True have g1: "py_getitem grid ?row = Inr (grid ! nat ?row)"
      by (simp add: py_getitem_nat)
    from True c have g2: "py_getitem (grid ! nat ?row) ?col = Inr (grid ! nat ?row ! nat ?col)"
      by (simp add: py_getitem_nat)
    from True g1 g2 show ?thesis by (simp add: is_valid_position_eq Let_def)
  qed
qed

lemma find_word_loop_eq:
  assumes "no_short_rows grid"
  shows "find_word_loop grid word (int k) start_row start_col delta_row delta_col =
     Inr (\<forall>i<length word.
            cell_is grid (start_row + int (k + i) * delta_row)
              (start_col + int (k + i) * delta_col) (word ! i))"
proof (induction word arbitrary: k)
  case Nil
  show ?case by simp
next
  case (Cons char rest)
  let ?Q = "\<lambda>j c. cell_is grid (start_row + int j * delta_row) (start_col + int j * delta_col) c"
  have s: "int k + 1 = int (Suc k)" by simp
  have split: "(\<forall>i<length (char # rest). ?Q (k + i) ((char # rest) ! i))
      \<longleftrightarrow> ?Q k char \<and> (\<forall>i<length rest. ?Q (Suc k + i) (rest ! i))"
    by (simp add: All_less_Suc2 add.assoc add.left_commute)
  have "find_word_loop grid (char # rest) (int k) start_row start_col delta_row delta_col =
      (if ?Q k char
       then find_word_loop grid rest (int (Suc k)) start_row start_col delta_row delta_col
       else Inr False)"
    unfolding find_word_loop_step [OF assms] s cell_is_def by (rule refl)
  also have "\<dots> = Inr (?Q k char \<and> (\<forall>i<length rest. ?Q (Suc k + i) (rest ! i)))"
    unfolding Cons.IH by simp
  finally show ?case unfolding split .
qed

lemma find_word_in_direction_eq:
  assumes "no_short_rows grid"
  shows "find_word_in_direction grid word start_row start_col delta_row delta_col =
     Inr (\<forall>i<length word.
            cell_is grid (start_row + int i * delta_row) (start_col + int i * delta_col) (word ! i))"
  using find_word_loop_eq [OF assms, of word 0] by (simp add: find_word_in_direction_def)

text \<open>
  C2. On a rectangular grid of \<open>R \<ge> 1\<close> rows and \<open>C\<close> columns, \<^verbatim>\<open>find_word_in_direction\<close>
  returns true exactly when, for every index \<open>i\<close> below the length of the word, the
  position \<open>(start_row + i * delta_row, start_col + i * delta_col)\<close> is inside the grid
  and the cell there is the \<open>i\<close>-th character of the word. So a candidate with a position
  off the grid is rejected, whatever the direction and the start cell. (The equation
  holds for the empty word too.)
\<close>

theorem find_word_in_direction_iff:
  assumes "rectangular grid R C" and "0 < R"
  shows "find_word_in_direction grid word start_row start_col delta_row delta_col =
           Inr (\<forall>i<length word.
                  0 \<le> start_row + int i * delta_row \<and> start_row + int i * delta_row < int R
                \<and> 0 \<le> start_col + int i * delta_col \<and> start_col + int i * delta_col < int C
                \<and> grid ! nat (start_row + int i * delta_row)
                       ! nat (start_col + int i * delta_col) = [word ! i])
       \<and> ((\<exists>i<length word.
              \<not> (0 \<le> start_row + int i * delta_row \<and> start_row + int i * delta_row < int R
               \<and> 0 \<le> start_col + int i * delta_col \<and> start_col + int i * delta_col < int C))
            \<longrightarrow> find_word_in_direction grid word start_row start_col delta_row delta_col
                  = Inr False)"
proof -
  from assms have len: "length grid = R" and hd: "length (hd grid) = C"
    by (simp_all add: rectangular_def rectangular_hd)
  from assms(1) have "no_short_rows grid" by (rule rectangular_no_short_rows)
  then have eq: "find_word_in_direction grid word start_row start_col delta_row delta_col =
     Inr (\<forall>i<length word.
            cell_is grid (start_row + int i * delta_row) (start_col + int i * delta_col) (word ! i))"
    by (rule find_word_in_direction_eq)
  show ?thesis unfolding eq cell_is_def len hd by blast
qed

theorem find_word_in_direction_iff_witness:
  "rectangular [[''A'', ''B''], [''C'', ''D'']] 2 2 \<and> (0::nat) < 2
   \<and> find_word_in_direction [[''A'', ''B''], [''C'', ''D'']] ''AD'' 0 0 1 1 = Inr True
   \<and> find_word_in_direction [[''A'', ''B''], [''C'', ''D'']] ''BD'' 0 1 1 1 = Inr False"
proof -
  have h: "rectangular [[''A'', ''B''], [''C'', ''D'']] 2 2"
    by (simp add: rectangular_def)
  have l: "length ''AD'' = Suc (Suc 0)" "length ''BD'' = Suc (Suc 0)" by simp_all
  show ?thesis
    using h find_word_in_direction_iff [OF h, of "''AD''" 0 0 1 1]
      find_word_in_direction_iff [OF h, of "''BD''" 0 1 1 1]
    unfolding l by (simp add: All_less_Suc)
qed

section \<open>Grid searcher: the loops\<close>

lemma find_word_in_direction_cases:
  assumes "no_short_rows grid"
  shows "find_word_in_direction grid word (int r) (int c) (fst d) (fst (snd d)) =
           Inr (word_at grid word r c d)"
  unfolding word_at_def find_word_in_direction_eq [OF assms] by simp

lemma try_directions_Cons:
  assumes "no_short_rows grid"
  shows "try_directions grid word r c (d # ds) =
           (if word_at grid word r c d
            then Inr (Some (word, int r + 1, int c + 1, snd (snd d)))
            else try_directions grid word r c ds)"
proof -
  obtain dr dc name where d: "d = (dr, dc, name)" by (cases d) auto
  show ?thesis
    using find_word_in_direction_cases [OF assms, of word r c d]
    by (simp add: d)
qed

lemma try_directions_first:
  assumes "no_short_rows grid"
  shows "(try_directions grid word r c ds = Inr None
            \<and> (\<forall>d\<in>set ds. \<not> word_at grid word r c d))
       \<or> (\<exists>k<length ds.
            try_directions grid word r c ds
              = Inr (Some (word, int r + 1, int c + 1, snd (snd (ds ! k))))
          \<and> word_at grid word r c (ds ! k)
          \<and> (\<forall>j<k. \<not> word_at grid word r c (ds ! j)))"
proof (induction ds)
  case Nil
  show ?case by simp
next
  case (Cons d ds)
  show ?case
  proof (cases "word_at grid word r c d")
    case True
    then have "try_directions grid word r c (d # ds)
        = Inr (Some (word, int r + 1, int c + 1, snd (snd ((d # ds) ! 0))))"
      by (simp add: try_directions_Cons [OF assms])
    moreover have "word_at grid word r c ((d # ds) ! 0)" using True by simp
    ultimately show ?thesis by (intro disjI2 exI [of _ 0]) simp
  next
    case False
    then have step: "try_directions grid word r c (d # ds) = try_directions grid word r c ds"
      by (simp add: try_directions_Cons [OF assms])
    from Cons.IH show ?thesis
    proof
      assume "try_directions grid word r c ds = Inr None
          \<and> (\<forall>d\<in>set ds. \<not> word_at grid word r c d)"
      with False step show ?thesis by simp
    next
      assume "\<exists>k<length ds.
            try_directions grid word r c ds
              = Inr (Some (word, int r + 1, int c + 1, snd (snd (ds ! k))))
          \<and> word_at grid word r c (ds ! k)
          \<and> (\<forall>j<k. \<not> word_at grid word r c (ds ! j))"
      then obtain k where k: "k < length ds"
        "try_directions grid word r c ds
              = Inr (Some (word, int r + 1, int c + 1, snd (snd (ds ! k))))"
        "word_at grid word r c (ds ! k)" "\<forall>j<k. \<not> word_at grid word r c (ds ! j)"
        by blast
      have "\<forall>j<Suc k. \<not> word_at grid word r c ((d # ds) ! j)"
        using False k(4) by (simp add: All_less_Suc2)
      with k step show ?thesis
        by (intro disjI2 exI [of _ "Suc k"]) simp
    qed
  qed
qed


lemma first_hit:
  fixes f :: "'a list \<Rightarrow> py_error + 'b option" and body :: "'a \<Rightarrow> py_error + 'b option"
  assumes nil: "f [] = Inr None"
    and cons: "\<And>x ys. f (x # ys) =
        (case body x of Inl e \<Rightarrow> Inl e | Inr (Some m) \<Rightarrow> Inr (Some m) | Inr None \<Rightarrow> f ys)"
    and total: "\<And>x. x \<in> set xs \<Longrightarrow> \<exists>res. body x = Inr res"
  shows "(f xs = Inr None \<and> (\<forall>x\<in>set xs. body x = Inr None))
       \<or> (\<exists>i<length xs. \<exists>m. f xs = Inr (Some m) \<and> body (xs ! i) = Inr (Some m)
             \<and> (\<forall>j<i. body (xs ! j) = Inr None))"
  using total
proof (induction xs)
  case Nil
  show ?case by (simp add: nil)
next
  case (Cons x xs)
  from Cons.prems obtain res where res: "body x = Inr res" by auto
  show ?case
  proof (cases res)
    case (Some m)
    with res have "f (x # xs) = Inr (Some m)" "body ((x # xs) ! 0) = Inr (Some m)"
      by (simp_all add: cons)
    then show ?thesis by (intro disjI2 exI [of _ 0] exI [of _ m]) simp
  next
    case None
    with res have step: "f (x # xs) = f xs" by (simp add: cons)
    have "(f xs = Inr None \<and> (\<forall>x\<in>set xs. body x = Inr None))
       \<or> (\<exists>i<length xs. \<exists>m. f xs = Inr (Some m) \<and> body (xs ! i) = Inr (Some m)
             \<and> (\<forall>j<i. body (xs ! j) = Inr None))"
      using Cons.prems by (intro Cons.IH) simp
    then show ?thesis
    proof
      assume "f xs = Inr None \<and> (\<forall>x\<in>set xs. body x = Inr None)"
      with step res None show ?thesis by simp
    next
      assume "\<exists>i<length xs. \<exists>m. f xs = Inr (Some m) \<and> body (xs ! i) = Inr (Some m)
             \<and> (\<forall>j<i. body (xs ! j) = Inr None)"
      then obtain i m where i: "i < length xs" "f xs = Inr (Some m)"
        "body (xs ! i) = Inr (Some m)" "\<forall>j<i. body (xs ! j) = Inr None"
        by blast
      have "\<forall>j<Suc i. body ((x # xs) ! j) = Inr None"
        using res None i(4) by (simp add: All_less_Suc2)
      with i step show ?thesis
        by (intro disjI2 exI [of _ "Suc i"] exI [of _ m]) simp
    qed
  qed
qed

lemma try_directions_total:
  assumes "no_short_rows grid"
  shows "\<exists>res. try_directions grid word r c ds = Inr res"
  using try_directions_first [OF assms, of word r c ds] by blast

lemma try_directions_None:
  assumes "no_short_rows grid" and "try_directions grid word r c ds = Inr None"
  shows "\<forall>d\<in>set ds. \<not> word_at grid word r c d"
  using try_directions_first [OF assms(1), of word r c ds] assms(2) by auto

lemma scan_cols_first:
  assumes "no_short_rows grid"
  shows "(scan_cols grid word r cs = Inr None
            \<and> (\<forall>c\<in>set cs. try_directions grid word r c get_directions = Inr None))
       \<or> (\<exists>i<length cs. \<exists>m. scan_cols grid word r cs = Inr (Some m)
             \<and> try_directions grid word r (cs ! i) get_directions = Inr (Some m)
             \<and> (\<forall>j<i. try_directions grid word r (cs ! j) get_directions = Inr None))"
  by (rule first_hit [where f = "scan_cols grid word r"])
     (simp_all add: try_directions_total [OF assms])

lemma scan_cols_total:
  assumes "no_short_rows grid"
  shows "\<exists>res. scan_cols grid word r cs = Inr res"
  using scan_cols_first [OF assms, of word r cs] by blast

lemma scan_cols_None:
  assumes "no_short_rows grid" and "scan_cols grid word r cs = Inr None"
  shows "\<forall>c\<in>set cs. \<forall>d\<in>set get_directions. \<not> word_at grid word r c d"
proof -
  from scan_cols_first [OF assms(1), of word r cs] assms(2)
  have "\<forall>c\<in>set cs. try_directions grid word r c get_directions = Inr None" by auto
  then show ?thesis using try_directions_None [OF assms(1)] by blast
qed

lemma scan_rows_first:
  assumes "no_short_rows grid" and "grid \<noteq> []"
  shows "(scan_rows grid word rs = Inr None
            \<and> (\<forall>r\<in>set rs. scan_cols grid word r [0..<length (hd grid)] = Inr None))
       \<or> (\<exists>i<length rs. \<exists>m. scan_rows grid word rs = Inr (Some m)
             \<and> scan_cols grid word (rs ! i) [0..<length (hd grid)] = Inr (Some m)
             \<and> (\<forall>j<i. scan_cols grid word (rs ! j) [0..<length (hd grid)] = Inr None))"
  using assms(2)
  by (intro first_hit [where f = "scan_rows grid word"])
     (simp_all add: py_getitem_0 scan_cols_total [OF assms(1)])

text \<open>The outcome of the three nested loops for one word.\<close>

lemma search_word_cases:
  assumes nsr: "no_short_rows grid"
  shows "(scan_rows grid word [0..<length grid] = Inr None
            \<and> (\<forall>r<length grid. \<forall>c<length (hd grid). \<forall>d\<in>set get_directions.
                  \<not> word_at grid word r c d))
       \<or> (\<exists>r0 c0 k0. r0 < length grid \<and> c0 < length (hd grid) \<and> k0 < length get_directions
            \<and> scan_rows grid word [0..<length grid]
                = Inr (Some (word, int r0 + 1, int c0 + 1, snd (snd (get_directions ! k0))))
            \<and> word_at grid word r0 c0 (get_directions ! k0)
            \<and> (\<forall>r c k. r < length grid \<longrightarrow> c < length (hd grid) \<longrightarrow> k < length get_directions
                  \<longrightarrow> word_at grid word r c (get_directions ! k)
                  \<longrightarrow> r0 < r \<or> (r0 = r \<and> (c0 < c \<or> (c0 = c \<and> k0 \<le> k)))))"
proof (cases "grid = []")
  case True
  then show ?thesis by simp
next
  case False
  let ?R = "length grid" and ?C = "length (hd grid)" and ?D = "get_directions"
  from scan_rows_first [OF nsr False, of word "[0..<?R]"] show ?thesis
  proof
    assume "scan_rows grid word [0..<?R] = Inr None
        \<and> (\<forall>r\<in>set [0..<?R]. scan_cols grid word r [0..<?C] = Inr None)"
    then have n: "scan_rows grid word [0..<?R] = Inr None"
      and "\<forall>r<?R. scan_cols grid word r [0..<?C] = Inr None" by simp_all
    then have "\<forall>r<?R. \<forall>c<?C. \<forall>d\<in>set ?D. \<not> word_at grid word r c d"
      using scan_cols_None [OF nsr] by fastforce
    with n show ?thesis by blast
  next
    assume "\<exists>i<length [0..<?R]. \<exists>m. scan_rows grid word [0..<?R] = Inr (Some m)
             \<and> scan_cols grid word ([0..<?R] ! i) [0..<?C] = Inr (Some m)
             \<and> (\<forall>j<i. scan_cols grid word ([0..<?R] ! j) [0..<?C] = Inr None)"
    then obtain r0 m where r0: "r0 < ?R" and res: "scan_rows grid word [0..<?R] = Inr (Some m)"
      and row: "scan_cols grid word r0 [0..<?C] = Inr (Some m)"
      and rows_before: "\<forall>j<r0. scan_cols grid word j [0..<?C] = Inr None"
      by auto
    from scan_cols_first [OF nsr, of word r0 "[0..<?C]"] row
    obtain c0 where c0: "c0 < ?C"
      and cell: "try_directions grid word r0 c0 ?D = Inr (Some m)"
      and cols_before: "\<forall>j<c0. try_directions grid word r0 j ?D = Inr None"
      by auto
    from try_directions_first [OF nsr, of word r0 c0 ?D] cell
    obtain k0 where k0: "k0 < length ?D"
      and m: "m = (word, int r0 + 1, int c0 + 1, snd (snd (?D ! k0)))"
      and hit: "word_at grid word r0 c0 (?D ! k0)"
      and dirs_before: "\<forall>j<k0. \<not> word_at grid word r0 c0 (?D ! j)"
      by auto
    have least: "r0 < r \<or> (r0 = r \<and> (c0 < c \<or> (c0 = c \<and> k0 \<le> k)))"
      if r: "r < ?R" and c: "c < ?C" and k: "k < length ?D"
        and w: "word_at grid word r c (?D ! k)" for r c k
    proof -
      from k have dk: "?D ! k \<in> set ?D" by simp
      have "\<not> r < r0"
      proof
        assume "r < r0"
        with rows_before have "scan_cols grid word r [0..<?C] = Inr None" by simp
        from scan_cols_None [OF nsr this] c dk w show False by simp
      qed
      moreover have "\<not> c < c0" if "r = r0"
      proof
        assume "c < c0"
        with cols_before have "try_directions grid word r0 c ?D = Inr None" by simp
        from try_directions_None [OF nsr this] dk w that show False by simp
      qed
      moreover have "\<not> k < k0" if "r = r0" "c = c0"
        using dirs_before w that by auto
      ultimately show ?thesis by force
    qed
    from r0 c0 k0 res m hit least show ?thesis by blast
  qed
qed

lemma search_loop_acc:
  "search_loop grid ws acc =
     (case search_loop grid ws [] of Inl e \<Rightarrow> Inl e | Inr ms \<Rightarrow> Inr (acc @ ms))"
proof (induction ws arbitrary: acc)
  case Nil
  show ?case by simp
next
  case (Cons w ws)
  show ?case
  proof (cases "scan_rows grid w [0..<length grid]")
    case (Inl e)
    then show ?thesis by simp
  next
    case (Inr res)
    show ?thesis
    proof (cases res)
      case None
      with Inr show ?thesis using Cons.IH [of acc] by simp
    next
      case (Some m)
      with Inr show ?thesis
        using Cons.IH [of "acc @ [m]"] Cons.IH [of "[m]"]
        by (simp split: sum.splits)
    qed
  qed
qed

lemma scan_rows_None_iff:
  assumes "no_short_rows grid"
  shows "scan_rows grid word [0..<length grid] = Inr None \<longleftrightarrow> \<not> occurs grid word"
proof -
  have "occurs grid word" if "k < length get_directions" "r < length grid"
    "c < length (hd grid)" "word_at grid word r c (get_directions ! k)" for r c k
    unfolding occurs_def using that
    by (intro bexI [of _ r] bexI [of _ c] bexI [of _ "get_directions ! k"]) simp_all
  with search_word_cases [OF assms, of word] show ?thesis
    by (auto simp: occurs_def)
qed

lemma scan_rows_total:
  assumes "no_short_rows grid"
  shows "\<exists>res. scan_rows grid word [0..<length grid] = Inr res"
  using search_word_cases [OF assms, of word] by blast

lemma scan_rows_Some_fst:
  assumes "no_short_rows grid" and "scan_rows grid word [0..<length grid] = Inr (Some m)"
  shows "fst m = word"
  using search_word_cases [OF assms(1), of word] assms(2) by auto

lemma search_loop_chars:
  assumes nsr: "no_short_rows grid"
  shows "\<exists>ms. search_loop grid ws [] = Inr ms
           \<and> set ms = {m. \<exists>w\<in>set ws. scan_rows grid w [0..<length grid] = Inr (Some m)}
           \<and> map fst ms = filter (occurs grid) ws"
proof (induction ws)
  case Nil
  show ?case by simp
next
  case (Cons w ws)
  then obtain ms where ms: "search_loop grid ws [] = Inr ms"
    "set ms = {m. \<exists>w\<in>set ws. scan_rows grid w [0..<length grid] = Inr (Some m)}"
    "map fst ms = filter (occurs grid) ws"
    by blast
  from scan_rows_total [OF nsr, of w] obtain res
    where res: "scan_rows grid w [0..<length grid] = Inr res" by blast
  show ?case
  proof (cases res)
    case None
    with res have "\<not> occurs grid w" by (simp add: scan_rows_None_iff [OF nsr])
    moreover from res None have "search_loop grid (w # ws) [] = Inr ms" by (simp add: ms(1))
    ultimately show ?thesis using ms(2,3) res None by auto
  next
    case (Some m)
    with res have occ: "occurs grid w" using scan_rows_None_iff [OF nsr, of w] by simp
    from res Some have "fst m = w" using scan_rows_Some_fst [OF nsr] by simp
    moreover from res Some have "search_loop grid (w # ws) [] = Inr (m # ms)"
      using search_loop_acc [of grid ws "[m]"] by (simp add: ms(1))
    ultimately show ?thesis using ms(2,3) res Some occ by auto
  qed
qed


section \<open>Grid searcher: results\<close>

lemma search_for_words_chars:
  assumes "no_short_rows grid"
  shows "\<exists>ms. search_for_words grid ws = Inr ms
           \<and> set ms = {m. \<exists>w\<in>set ws. scan_rows grid w [0..<length grid] = Inr (Some m)}
           \<and> map fst ms = filter (occurs grid) ws"
  unfolding search_for_words_def by (rule search_loop_chars [OF assms])

text \<open>
  C1. On a rectangular grid with at least one row, let \<open>word\<close> be one of the words
  searched and let the matcher accept it from some start cell along some entry of the
  direction table. Then \<^verbatim>\<open>search_for_words\<close> returns normally, and the record it holds
  for \<open>word\<close> is the one of the accepted combination \<open>(r0, c0, k0)\<close> that is least in
  the order "row, then column, then position in the direction table": no accepted
  combination has a smaller row, or the same row and a smaller column, or the same cell
  and an earlier table entry. Every record of the result for \<open>word\<close> is this one, and
  searching \<open>word\<close> alone returns this single record: the search of a word ends at
  its first success.
\<close>

theorem first_match_wins:
  assumes rect: "rectangular grid R C" and "0 < R"
    and w: "word \<in> set words"
    and hit: "r < R" "c < C" "k < length get_directions"
      "word_at grid word r c (get_directions ! k)"
  shows "\<exists>ms r0 c0 k0.
           search_for_words grid words = Inr ms
         \<and> search_for_words grid [word]
             = Inr [(word, int r0 + 1, int c0 + 1, snd (snd (get_directions ! k0)))]
         \<and> (word, int r0 + 1, int c0 + 1, snd (snd (get_directions ! k0))) \<in> set ms
         \<and> (\<forall>m\<in>set ms. fst m = word \<longrightarrow>
               m = (word, int r0 + 1, int c0 + 1, snd (snd (get_directions ! k0))))
         \<and> r0 < R \<and> c0 < C \<and> k0 < length get_directions
         \<and> word_at grid word r0 c0 (get_directions ! k0)
         \<and> (\<forall>r' c' k'. r' < R \<longrightarrow> c' < C \<longrightarrow> k' < length get_directions
               \<longrightarrow> word_at grid word r' c' (get_directions ! k')
               \<longrightarrow> r0 < r' \<or> (r0 = r' \<and> (c0 < c' \<or> (c0 = c' \<and> k0 \<le> k'))))"
proof -
  from rect have nsr: "no_short_rows grid" by (rule rectangular_no_short_rows)
  from assms have len: "length grid = R" and hd: "length (hd grid) = C"
    by (simp_all add: rectangular_def rectangular_hd)
  let ?D = get_directions
  from search_word_cases [OF nsr, of word] hit
  obtain r0 c0 k0 where b: "r0 < R" "c0 < C" "k0 < length ?D"
    and res: "scan_rows grid word [0..<length grid]
                = Inr (Some (word, int r0 + 1, int c0 + 1, snd (snd (?D ! k0))))"
    and at: "word_at grid word r0 c0 (?D ! k0)"
    and least: "\<forall>r' c' k'. r' < R \<longrightarrow> c' < C \<longrightarrow> k' < length ?D
               \<longrightarrow> word_at grid word r' c' (?D ! k')
               \<longrightarrow> r0 < r' \<or> (r0 = r' \<and> (c0 < c' \<or> (c0 = c' \<and> k0 \<le> k')))"
    unfolding len hd by (metis nth_mem)
  let ?M = "(word, int r0 + 1, int c0 + 1, snd (snd (?D ! k0)))"
  from search_for_words_chars [OF nsr, of words]
  obtain ms where ms: "search_for_words grid words = Inr ms"
    "set ms = {m. \<exists>w\<in>set words. scan_rows grid w [0..<length grid] = Inr (Some m)}"
    by blast
  from res have one: "search_for_words grid [word] = Inr [?M]"
    by (simp add: search_for_words_def)
  from ms(2) w res have mem: "?M \<in> set ms" by blast
  have uniq: "m = ?M" if "m \<in> set ms" "fst m = word" for m
  proof -
    from that(1) ms(2) obtain w' where w': "scan_rows grid w' [0..<length grid] = Inr (Some m)"
      by blast
    from scan_rows_Some_fst [OF nsr this] that(2) have "w' = word" by simp
    with w' res show ?thesis by simp
  qed
  from ms(1) one mem uniq b at least show ?thesis by blast
qed

theorem first_match_wins_witness:
  "rectangular [[''A'', ''B''], [''B'', ''A'']] 2 2
   \<and> word_at [[''A'', ''B''], [''B'', ''A'']] ''AB'' 0 0 (get_directions ! 2)
   \<and> word_at [[''A'', ''B''], [''B'', ''A'']] ''AB'' 1 1 (get_directions ! 1)
   \<and> search_for_words [[''A'', ''B''], [''B'', ''A'']] [''ZZ'', ''AB''] = Inr [(''AB'', 1, 1, ''horizontal_right'')]
   \<and> (\<exists>ms r0 c0 k0. search_for_words [[''A'', ''B''], [''B'', ''A'']] [''ZZ'', ''AB''] = Inr ms
         \<and> (''AB'', int r0 + 1, int c0 + 1, snd (snd (get_directions ! k0))) \<in> set ms
         \<and> (r0 < 1 \<or> (r0 = 1 \<and> (c0 < 1 \<or> (c0 = 1 \<and> k0 \<le> 1)))))"
proof -
  have h: "rectangular [[''A'', ''B''], [''B'', ''A'']] 2 2"
    by (simp add: rectangular_def)
  have a: "word_at [[''A'', ''B''], [''B'', ''A'']] ''AB'' 0 0 (get_directions ! 2)"
    and b: "word_at [[''A'', ''B''], [''B'', ''A'']] ''AB'' 1 1 (get_directions ! 1)"
    by code_simp+
  have ev: "search_for_words [[''A'', ''B''], [''B'', ''A'']] [''ZZ'', ''AB'']
      = Inr [(''AB'', 1, 1, ''horizontal_right'')]"
    by code_simp
  have k: "1 < length get_directions" by (simp add: get_directions_def)
  have w: "''AB'' \<in> set [''ZZ'', ''AB'']" by simp
  from first_match_wins [OF h _ w _ _ k b]
  obtain ms r0 c0 k0 where res: "search_for_words [[''A'', ''B''], [''B'', ''A'']] [''ZZ'', ''AB''] = Inr ms"
    "(''AB'', int r0 + 1, int c0 + 1, snd (snd (get_directions ! k0))) \<in> set ms"
    and least: "\<forall>r' c' k'. r' < 2 \<longrightarrow> c' < 2 \<longrightarrow> k' < length get_directions
               \<longrightarrow> word_at [[''A'', ''B''], [''B'', ''A'']] ''AB'' r' c' (get_directions ! k')
               \<longrightarrow> r0 < r' \<or> (r0 = r' \<and> (c0 < c' \<or> (c0 = c' \<and> k0 \<le> k')))"
    by auto
  have "(1::nat) < 2" by simp
  with least k b have "r0 < 1 \<or> (r0 = 1 \<and> (c0 < 1 \<or> (c0 = 1 \<and> k0 \<le> 1)))"
    by blast
  with res have "\<exists>ms r0 c0 k0. search_for_words [[''A'', ''B''], [''B'', ''A'']] [''ZZ'', ''AB''] = Inr ms
         \<and> (''AB'', int r0 + 1, int c0 + 1, snd (snd (get_directions ! k0))) \<in> set ms
         \<and> (r0 < 1 \<or> (r0 = 1 \<and> (c0 < 1 \<or> (c0 = 1 \<and> k0 \<le> 1))))"
    by blast
  with h a b ev show ?thesis by blast
qed

text \<open>
  C3. On a rectangular grid with at least one row, \<^verbatim>\<open>search_for_words\<close> returns
  normally, and the words of its records, read in order, are the entries of the input
  list that occur in the grid, in the order of the input list. So each entry of the
  input list gives at most one record, the records follow the input order, and a word
  that occurs nowhere has no record. The word loop searches every entry on its own: a
  word listed twice that occurs in the grid has two records, and the records have
  pairwise different words exactly as far as the input list has, in particular when
  the words of the input list are distinct.
\<close>

theorem search_for_words_order:
  assumes "rectangular grid R C" and "0 < R"
  shows "\<exists>ms. search_for_words grid words = Inr ms
           \<and> map fst ms = filter (occurs grid) words
           \<and> subseq (map fst ms) words
           \<and> length ms \<le> length words
           \<and> (distinct words \<longrightarrow> distinct (map fst ms))
           \<and> (\<forall>w. \<not> occurs grid w \<longrightarrow> w \<notin> fst ` set ms)"
proof -
  from assms(1) have "no_short_rows grid" by (rule rectangular_no_short_rows)
  from search_for_words_chars [OF this, of words]
  obtain ms where ms: "search_for_words grid words = Inr ms"
    "map fst ms = filter (occurs grid) words" by blast
  from ms(2) have sub: "subseq (map fst ms) words" by simp
  have "length (map fst ms) \<le> length words" unfolding ms(2) by (rule length_filter_le)
  then have len: "length ms \<le> length words" by simp
  have dist: "distinct (map fst ms)" if "distinct words"
    unfolding ms(2) using that by (rule distinct_filter)
  have absent: "w \<notin> fst ` set ms" if "\<not> occurs grid w" for w
  proof
    assume "w \<in> fst ` set ms"
    then have "w \<in> set (map fst ms)" by simp
    with ms(2) that show False by simp
  qed
  show ?thesis
  proof (intro exI [of _ ms] conjI allI impI)
    show "search_for_words grid words = Inr ms" by (rule ms(1))
    show "map fst ms = filter (occurs grid) words" by (rule ms(2))
    show "subseq (map fst ms) words" by (rule sub)
    show "length ms \<le> length words" by (rule len)
    show "distinct (map fst ms)" if "distinct words" using that by (rule dist)
    show "w \<notin> fst ` set ms" if "\<not> occurs grid w" for w using that by (rule absent)
  qed
qed

theorem search_for_words_order_witness:
  "rectangular [[''A'', ''B''], [''B'', ''A'']] 2 2 \<and> (0::nat) < 2
   \<and> search_for_words [[''A'', ''B''], [''B'', ''A'']] [''BA'', ''ZZ'', ''AB'', ''AA'']
       = Inr [(''BA'', 1, 2, ''horizontal_left''), (''AB'', 1, 1, ''horizontal_right''),
              (''AA'', 1, 1, ''diagonal_down_right'')]
   \<and> (\<exists>ms. search_for_words [[''A'', ''B''], [''B'', ''A'']] [''BA'', ''ZZ'', ''AB'', ''AA''] = Inr ms
         \<and> map fst ms = filter (occurs [[''A'', ''B''], [''B'', ''A'']]) [''BA'', ''ZZ'', ''AB'', ''AA'']
         \<and> subseq (map fst ms) [''BA'', ''ZZ'', ''AB'', ''AA'']
         \<and> length ms \<le> length [''BA'', ''ZZ'', ''AB'', ''AA'']
         \<and> (distinct [''BA'', ''ZZ'', ''AB'', ''AA''] \<longrightarrow> distinct (map fst ms))
         \<and> (\<forall>w. \<not> occurs [[''A'', ''B''], [''B'', ''A'']] w \<longrightarrow> w \<notin> fst ` set ms))"
proof -
  have h: "rectangular [[''A'', ''B''], [''B'', ''A'']] 2 2"
    by (simp add: rectangular_def)
  have z: "(0::nat) < 2" by simp
  have ev: "search_for_words [[''A'', ''B''], [''B'', ''A'']] [''BA'', ''ZZ'', ''AB'', ''AA'']
       = Inr [(''BA'', 1, 2, ''horizontal_left''), (''AB'', 1, 1, ''horizontal_right''),
              (''AA'', 1, 1, ''diagonal_down_right'')]"
    by code_simp
  note t = search_for_words_order [OF h z, of "[''BA'', ''ZZ'', ''AB'', ''AA'']"]
  from h z ev t show ?thesis by (intro conjI)
qed

text \<open>
  The grid \<^verbatim>\<open>[["A", "B"]]\<close> and the word list \<^verbatim>\<open>["AB", "AB"]\<close>: the result holds two
  records for the word \<^verbatim>\<open>AB\<close>, one for each entry.
\<close>

theorem search_for_words_repeated_word:
  "rectangular [[''A'', ''B'']] 1 2
   \<and> search_for_words [[''A'', ''B'']] [''AB'', ''AB'']
       = Inr [(''AB'', 1, 1, ''horizontal_right''), (''AB'', 1, 1, ''horizontal_right'')]"
proof -
  have "rectangular [[''A'', ''B'']] 1 2" by (simp add: rectangular_def)
  moreover have "search_for_words [[''A'', ''B'']] [''AB'', ''AB'']
       = Inr [(''AB'', 1, 1, ''horizontal_right''), (''AB'', 1, 1, ''horizontal_right'')]"
    by code_simp
  ultimately show ?thesis by (intro conjI)
qed


text \<open>
  C10. The matcher accepts the empty word on every grid, from every start position
  (inside the grid or not) and with every pair of deltas. So on a grid with at least
  one row whose first row has at least one cell, searching the empty word reports it
  at row 1, column 1, direction \<open>horizontal_right\<close>.
\<close>

theorem empty_word_found:
  "find_word_in_direction grid [] start_row start_col delta_row delta_col = Inr True
   \<and> (grid \<noteq> [] \<longrightarrow> hd grid \<noteq> [] \<longrightarrow>
        search_for_words grid [[]] = Inr [([], 1, 1, ''horizontal_right'')])"
proof -
  have a: "find_word_in_direction grid [] start_row start_col delta_row delta_col = Inr True"
    by (simp add: find_word_in_direction_def)
  have b: "search_for_words grid [[]] = Inr [([], 1, 1, ''horizontal_right'')]"
    if "grid \<noteq> []" "hd grid \<noteq> []"
  proof -
    from that have r: "[0..<length grid] = 0 # [Suc 0..<length grid]"
      and c: "[0..<length (hd grid)] = 0 # [Suc 0..<length (hd grid)]"
      by (simp_all add: upt_conv_Cons)
    have "try_directions grid [] 0 0 get_directions = Inr (Some ([], 1, 1, ''horizontal_right''))"
      by (simp add: get_directions_def find_word_in_direction_def)
    then show ?thesis
      using that by (simp add: search_for_words_def r c py_getitem_0)
  qed
  from a b show ?thesis by blast
qed

theorem empty_word_found_witness:
  "find_word_in_direction [[''A'']] [] (-5) 7 1 1 = Inr True
   \<and> [[''A'']] \<noteq> [] \<and> hd [[''A'']] \<noteq> []
   \<and> search_for_words [[''A'']] [[]] = Inr [([], 1, 1, ''horizontal_right'')]"
  using empty_word_found [of "[[''A'']]" "-5" 7 1 1] by simp

lemma word_at_cells:
  assumes "no_short_rows grid" and "word_at grid word r c d" and "i < length word"
  shows "cell_is grid (int r + int i * fst d) (int c + int i * fst (snd d)) (word ! i)"
  using assms(2,3) unfolding word_at_def find_word_in_direction_eq [OF assms(1)] by simp

lemma direction_moves:
  assumes "d \<in> set get_directions"
  shows "fst d = 1 \<or> fst d = -1 \<or> fst (snd d) = 1 \<or> fst (snd d) = -1"
  using assms by (auto simp: get_directions_def)

lemma occurs_empty_grid: "\<not> occurs [] word"
  by (simp add: occurs_def)

lemma occurs_length:
  assumes nsr: "no_short_rows grid" and occ: "occurs grid word"
  shows "length word \<le> max (length grid) (length (hd grid))"
proof (cases "word = []")
  case True
  then show ?thesis by simp
next
  case False
  from occ obtain r c d where rc: "r < length grid" "c < length (hd grid)"
    and d: "d \<in> set get_directions" and at: "word_at grid word r c d"
    by (auto simp: occurs_def)
  define i where "i = length word - 1"
  with False have i: "i < length word" and n: "length word = Suc i"
    by (simp_all add: Suc_leI)
  from word_at_cells [OF nsr at i]
  have b: "0 \<le> int r + int i * fst d" "int r + int i * fst d < int (length grid)"
    "0 \<le> int c + int i * fst (snd d)" "int c + int i * fst (snd d) < int (length (hd grid))"
    by (simp_all add: cell_is_def)
  from direction_moves [OF d] show ?thesis
  proof (elim disjE)
    assume "fst d = 1"
    with b(2) show ?thesis unfolding n by simp
  next
    assume "fst d = - 1"
    with b(1) rc(1) show ?thesis unfolding n by simp
  next
    assume "fst (snd d) = 1"
    with b(4) show ?thesis unfolding n by simp
  next
    assume "fst (snd d) = - 1"
    with b(3) rc(2) show ?thesis unfolding n by simp
  qed
qed

lemma occurs_chars:
  assumes nsr: "no_short_rows grid" and occ: "occurs grid word" and ch: "char \<in> set word"
  shows "\<exists>line\<in>set grid. [char] \<in> set line"
proof -
  from occ obtain r c d where at: "word_at grid word r c d"
    by (auto simp: occurs_def)
  from ch obtain i where i: "i < length word" "word ! i = char"
    by (auto simp: in_set_conv_nth)
  let ?row = "int r + int i * fst d" and ?col = "int c + int i * fst (snd d)"
  from word_at_cells [OF nsr at i(1)] i(2)
  have b: "0 \<le> ?row" "?row < int (length grid)" "0 \<le> ?col" "?col < int (length (hd grid))"
    and cell: "grid ! nat ?row ! nat ?col = [char]"
    by (simp_all add: cell_is_def)
  from b have r: "nat ?row < length grid" by (simp add: nat_less_iff)
  with nsr have "length (hd grid) \<le> length (grid ! nat ?row)" by (rule no_short_rows_nth)
  with b have "nat ?col < length (grid ! nat ?row)" by (simp add: nat_less_iff)
  then have "grid ! nat ?row ! nat ?col \<in> set (grid ! nat ?row)" by (rule nth_mem)
  with cell r show ?thesis by (metis nth_mem)
qed

text \<open>
  C5. On every grid in which no row is shorter than the first one, so on every
  rectangular grid and on the empty grid, \<^verbatim>\<open>search_for_words\<close> returns normally for
  every word list: the empty grid gives no record; a word longer than both the number
  of rows and the number of columns has no record; a word with a character that is in
  no cell of the grid has no record. The condition on the rows is needed: the column
  bound of \<^verbatim>\<open>is_valid_position\<close> is the length of the first row, so a shorter row lets
  \<^verbatim>\<open>grid[row][col]\<close> raise \<^verbatim>\<open>IndexError\<close>, as the evaluation after the theorem shows.
\<close>

theorem search_for_words_no_error:
  assumes "no_short_rows grid"
  shows "\<exists>ms. search_for_words grid words = Inr ms
           \<and> (grid = [] \<longrightarrow> ms = [])
           \<and> (\<forall>w\<in>set words.
                 max (length grid) (length (hd grid)) < length w \<longrightarrow> w \<notin> fst ` set ms)
           \<and> (\<forall>w\<in>set words.
                 (\<exists>char\<in>set w. \<forall>line\<in>set grid. [char] \<notin> set line) \<longrightarrow> w \<notin> fst ` set ms)"
proof -
  from search_for_words_chars [OF assms, of words]
  obtain ms where ms: "search_for_words grid words = Inr ms"
    "map fst ms = filter (occurs grid) words" by blast
  have occ: "occurs grid w" if "w \<in> fst ` set ms" for w
  proof -
    from that have "w \<in> set (map fst ms)" by simp
    with ms(2) show ?thesis by simp
  qed
  have empty: "ms = []" if "grid = []"
  proof -
    from that ms(2) have "map fst ms = []" by (simp add: occurs_empty_grid)
    then show ?thesis by simp
  qed
  have long: "w \<notin> fst ` set ms" if "max (length grid) (length (hd grid)) < length w" for w
  proof
    assume "w \<in> fst ` set ms"
    then have "occurs grid w" by (rule occ)
    with assms have "length w \<le> max (length grid) (length (hd grid))" by (rule occurs_length)
    with that show False by linarith
  qed
  have absent: "w \<notin> fst ` set ms"
    if "\<exists>char\<in>set w. \<forall>line\<in>set grid. [char] \<notin> set line" for w
  proof
    assume "w \<in> fst ` set ms"
    then have o: "occurs grid w" by (rule occ)
    from that obtain char where c: "char \<in> set w" "\<forall>line\<in>set grid. [char] \<notin> set line"
      by blast
    from occurs_chars [OF assms o c(1)] c(2) show False by blast
  qed
  show ?thesis
  proof (intro exI [of _ ms] conjI ballI impI)
    show "search_for_words grid words = Inr ms" by (rule ms(1))
  qed (simp_all only: empty long absent not_False_eq_True)
qed

theorem search_for_words_no_error_witness:
  "no_short_rows [] \<and> no_short_rows [[''A'', ''B''], [''C'', ''D'']]
   \<and> search_for_words [] [''A''] = Inr []
   \<and> search_for_words [[''A'', ''B''], [''C'', ''D'']] [''ABC'', ''AZ'', ''AD'']
        = Inr [(''AD'', 1, 1, ''diagonal_down_right'')]
   \<and> (\<exists>ms. search_for_words [[''A'', ''B''], [''C'', ''D'']] [''ABC'', ''AZ'', ''AD''] = Inr ms
         \<and> ''ABC'' \<notin> fst ` set ms \<and> ''AZ'' \<notin> fst ` set ms)"
proof -
  have h0: "no_short_rows []" and h: "no_short_rows [[''A'', ''B''], [''C'', ''D'']]"
    by (simp_all add: no_short_rows_def)
  from search_for_words_no_error [OF h0, of "[''A'']"]
  have e: "search_for_words [] [''A''] = Inr []" by auto
  have ev: "search_for_words [[''A'', ''B''], [''C'', ''D'']] [''ABC'', ''AZ'', ''AD'']
        = Inr [(''AD'', 1, 1, ''diagonal_down_right'')]"
    by code_simp
  from search_for_words_no_error [OF h, of "[''ABC'', ''AZ'', ''AD'']"]
  obtain ms where ms: "search_for_words [[''A'', ''B''], [''C'', ''D'']] [''ABC'', ''AZ'', ''AD''] = Inr ms"
    and long: "\<forall>w\<in>set [''ABC'', ''AZ'', ''AD''].
        max (length [[''A'', ''B''], [''C'', ''D'']]) (length (hd [[''A'', ''B''], [''C'', ''D'']])) < length w
           \<longrightarrow> w \<notin> fst ` set ms"
    and absent: "\<forall>w\<in>set [''ABC'', ''AZ'', ''AD''].
        (\<exists>char\<in>set w. \<forall>line\<in>set [[''A'', ''B''], [''C'', ''D'']]. [char] \<notin> set line)
           \<longrightarrow> w \<notin> fst ` set ms"
    by blast
  from long have "''ABC'' \<notin> fst ` set ms" by simp
  moreover from absent have "''AZ'' \<notin> fst ` set ms" by simp
  ultimately show ?thesis using h0 h e ev ms by blast
qed

text \<open>The grid \<^verbatim>\<open>[["A", "B"], ["C"]]\<close> and the word \<^verbatim>\<open>"Z"\<close>: the search raises.\<close>

theorem search_for_words_ragged_raises:
  "search_for_words [[''A'', ''B''], [''C'']] [''Z''] = Inl IndexError"
  by code_simp

lemma single_letter_at:
  assumes nsr: "no_short_rows grid" and r: "r < length grid" and c: "c < length (hd grid)"
  shows "word_at grid [char] r c d \<longleftrightarrow> grid ! r ! c = [char]"
  using r c unfolding word_at_def find_word_in_direction_eq [OF nsr]
  by (simp add: cell_is_def)

text \<open>
  C7. On a rectangular grid with at least one row, a word of one character is accepted
  by the matcher at a cell, along every entry of the direction table, exactly when the
  cell holds that character; and every record that \<^verbatim>\<open>search_for_words\<close> returns for a
  word of length 1 has the direction \<open>horizontal_right\<close>, the first entry of the table,
  and names a cell that holds the word. For the grid with rows \<^verbatim>\<open>A B\<close> and \<^verbatim>\<open>C D\<close> and
  the word \<^verbatim>\<open>A\<close> the result is the single record \<^verbatim>\<open>("A", 1, 1, "horizontal_right")\<close>.
\<close>

theorem single_letter_word:
  assumes rect: "rectangular grid R C" and R: "0 < R"
  shows "(\<forall>r<R. \<forall>c<C. \<forall>d\<in>set get_directions.
            word_at grid [char] r c d \<longleftrightarrow> grid ! r ! c = [char])
       \<and> (\<exists>ms. search_for_words grid words = Inr ms
             \<and> (\<forall>(w, row, col, direction)\<in>set ms. length w = 1 \<longrightarrow>
                   direction = ''horizontal_right'' \<and> grid ! nat (row - 1) ! nat (col - 1) = w))
       \<and> search_for_words [[''A'', ''B''], [''C'', ''D'']] [''A'']
            = Inr [(''A'', 1, 1, ''horizontal_right'')]"
proof -
  from rect have nsr: "no_short_rows grid" by (rule rectangular_no_short_rows)
  from assms have len: "length grid = R" and hd: "length (hd grid) = C"
    by (simp_all add: rectangular_def rectangular_hd)
  let ?D = get_directions
  have first: "?D ! 0 = (0, 1, ''horizontal_right'')" "0 < length ?D"
    by (simp_all add: get_directions_def)
  have cells: "\<forall>r<R. \<forall>c<C. \<forall>d\<in>set ?D. word_at grid [char] r c d \<longleftrightarrow> grid ! r ! c = [char]"
    for char
    using single_letter_at [OF nsr] unfolding len hd by blast
  from search_for_words_chars [OF nsr, of words]
  obtain ms where ms: "search_for_words grid words = Inr ms"
    "set ms = {m. \<exists>w\<in>set words. scan_rows grid w [0..<length grid] = Inr (Some m)}"
    by blast
  have rec: "direction = ''horizontal_right'' \<and> grid ! nat (row - 1) ! nat (col - 1) = w"
    if mem: "(w, row, col, direction) \<in> set ms" and one: "length w = 1" for w row col direction
  proof -
    from mem ms(2) obtain w' where
      w': "scan_rows grid w' [0..<length grid] = Inr (Some (w, row, col, direction))"
      by blast
    from scan_rows_Some_fst [OF nsr this] have "w' = w" by simp
    with w' search_word_cases [OF nsr, of w]
    obtain r0 c0 k0 where b: "r0 < R" "c0 < C" "k0 < length ?D"
      and m: "row = int r0 + 1" "col = int c0 + 1" "direction = snd (snd (?D ! k0))"
      and at: "word_at grid w r0 c0 (?D ! k0)"
      and least: "\<forall>r c k. r < R \<longrightarrow> c < C \<longrightarrow> k < length ?D
                  \<longrightarrow> word_at grid w r c (?D ! k)
                  \<longrightarrow> r0 < r \<or> (r0 = r \<and> (c0 < c \<or> (c0 = c \<and> k0 \<le> k)))"
      unfolding len hd by auto
    from one obtain char where w: "w = [char]" by (cases w) auto
    from b(3) have "?D ! k0 \<in> set ?D" by simp
    with cells [of char] b at w have cell: "grid ! r0 ! c0 = [char]" by blast
    from first(2) have "?D ! 0 \<in> set ?D" by (rule nth_mem)
    with cells [of char] b cell w have "word_at grid w r0 c0 (?D ! 0)" by blast
    with least b first(2) have "k0 = 0" by blast
    with m first(1) cell w show ?thesis by simp
  qed
  have ex: "search_for_words [[''A'', ''B''], [''C'', ''D'']] [''A'']
            = Inr [(''A'', 1, 1, ''horizontal_right'')]"
    by code_simp
  have "\<forall>(w, row, col, direction)\<in>set ms. length w = 1 \<longrightarrow>
          direction = ''horizontal_right'' \<and> grid ! nat (row - 1) ! nat (col - 1) = w"
    using rec by blast
  with ms(1) cells ex show ?thesis by blast
qed

theorem single_letter_word_witness:
  "rectangular [[''A'', ''B''], [''C'', ''A'']] 2 2 \<and> (0::nat) < 2
   \<and> word_at [[''A'', ''B''], [''C'', ''A'']] ''A'' 1 1 (get_directions ! 7)
   \<and> \<not> word_at [[''A'', ''B''], [''C'', ''A'']] ''A'' 0 1 (get_directions ! 0)
   \<and> search_for_words [[''A'', ''B''], [''C'', ''A'']] [''C'', ''A'']
        = Inr [(''C'', 2, 1, ''horizontal_right''), (''A'', 1, 1, ''horizontal_right'')]
   \<and> (\<exists>ms. search_for_words [[''A'', ''B''], [''C'', ''A'']] [''C'', ''A''] = Inr ms
         \<and> (\<forall>(w, row, col, direction)\<in>set ms. length w = 1 \<longrightarrow>
               direction = ''horizontal_right''
               \<and> [[''A'', ''B''], [''C'', ''A'']] ! nat (row - 1) ! nat (col - 1) = w))"
proof -
  have h: "rectangular [[''A'', ''B''], [''C'', ''A'']] 2 2"
    by (simp add: rectangular_def)
  have z: "(0::nat) < 2" by simp
  note t = single_letter_word [OF h z, of "CHR ''A''" "[''C'', ''A'']"]
  have d: "get_directions ! 7 \<in> set get_directions" "get_directions ! 0 \<in> set get_directions"
    by (simp_all add: get_directions_def)
  from t have cells: "\<forall>r<2. \<forall>c<2. \<forall>d\<in>set get_directions.
      word_at [[''A'', ''B''], [''C'', ''A'']] ''A'' r c d \<longleftrightarrow> [[''A'', ''B''], [''C'', ''A'']] ! r ! c = ''A''"
    by (elim conjE)
  have "(1::nat) < 2" "(0::nat) < 2" by simp_all
  with cells d have "word_at [[''A'', ''B''], [''C'', ''A'']] ''A'' 1 1 (get_directions ! 7)
      \<longleftrightarrow> [[''A'', ''B''], [''C'', ''A'']] ! 1 ! 1 = ''A''"
    and "word_at [[''A'', ''B''], [''C'', ''A'']] ''A'' 0 1 (get_directions ! 0)
      \<longleftrightarrow> [[''A'', ''B''], [''C'', ''A'']] ! 0 ! 1 = ''A''"
    by blast+
  then have "word_at [[''A'', ''B''], [''C'', ''A'']] ''A'' 1 1 (get_directions ! 7)"
    and "\<not> word_at [[''A'', ''B''], [''C'', ''A'']] ''A'' 0 1 (get_directions ! 0)"
    by simp_all
  moreover have "search_for_words [[''A'', ''B''], [''C'', ''A'']] [''C'', ''A'']
        = Inr [(''C'', 2, 1, ''horizontal_right''), (''A'', 1, 1, ''horizontal_right'')]"
    by code_simp
  moreover from t
  have "\<exists>ms. search_for_words [[''A'', ''B''], [''C'', ''A'']] [''C'', ''A''] = Inr ms
         \<and> (\<forall>(w, row, col, direction)\<in>set ms. length w = 1 \<longrightarrow>
               direction = ''horizontal_right''
               \<and> [[''A'', ''B''], [''C'', ''A'']] ! nat (row - 1) ! nat (col - 1) = w)"
    by (elim conjE)
  ultimately show ?thesis using h by simp
qed

section \<open>Loaders: results\<close>

lemma load_grid_loop_eq:
  "load_grid_loop ls grid =
     grid @ map (\<lambda>line. filter (\<lambda>char. char \<noteq> []) (py_split (py_strip line)))
              (filter (\<lambda>line. py_strip line \<noteq> []) ls)"
  by (induction ls arbitrary: grid) (simp_all add: Let_def)

lemma load_words_loop_eq:
  "load_words_loop ls words =
     words @ filter (\<lambda>word. word \<noteq> []) (map (\<lambda>line. py_upper (py_strip line)) ls)"
  by (induction ls arbitrary: words) (simp_all add: Let_def)

lemma py_upper_char_not_lower: "\<not> ascii_lower (py_upper_char c)"
proof (cases "ascii_lower c")
  case True
  define n :: nat where "n = of_char c"
  from True have n: "97 \<le> n" "n \<le> 122" by (simp_all add: ascii_lower_def n_def)
  then have "(n - 32) mod 256 = n - 32" by simp
  then have "of_char (char_of (n - 32)) = n - 32" by simp
  moreover from n have "\<not> (97 \<le> n - 32 \<and> n - 32 \<le> 122)" by simp
  ultimately show ?thesis using True by (simp add: py_upper_char_def ascii_lower_def n_def)
next
  case False
  then show ?thesis by (simp add: py_upper_char_def)
qed

lemma py_upper_empty: "py_upper s = [] \<longleftrightarrow> s = []"
  by (simp add: py_upper_def)

lemma load_words_upper:
  assumes "w \<in> set (load_words text)" and "c \<in> set w"
  shows "\<not> ascii_lower c"
proof -
  from assms(1) obtain line where "w = py_upper (py_strip line)"
    by (auto simp: load_words_def load_words_loop_eq)
  with assms(2) show ?thesis
    by (auto simp: py_upper_def py_upper_char_not_lower)
qed


text \<open>
  C8. The grid text with the three lines \<^verbatim>\<open>W I S D O M\<close>, \<^verbatim>\<open>B C I A K D\<close> and
  \<^verbatim>\<open>S H A I M E\<close> loads as a grid of 3 rows and 6 columns, the word text \<^verbatim>\<open>WISDOM\<close>
  loads as the one word \<^verbatim>\<open>WISDOM\<close>, and the search on them returns the single record
  \<^verbatim>\<open>("WISDOM", 1, 1, "horizontal_right")\<close>, row and column counted from 1. For every
  text, \<^verbatim>\<open>load_grid\<close> keeps exactly the lines that are not blank, one row of cells for
  each; \<^verbatim>\<open>load_words\<close> keeps the stripped, upper-cased lines that are not empty, and no
  word it returns has a letter \<^verbatim>\<open>a\<close> to \<^verbatim>\<open>z\<close>.
\<close>

theorem load_and_search_round_trip:
  "load_grid (''W I S D O M'' @ [CHR 0x0A] @ ''B C I A K D'' @ [CHR 0x0A] @ ''S H A I M E'' @ [CHR 0x0A])
     = [[''W'', ''I'', ''S'', ''D'', ''O'', ''M''],
         [''B'', ''C'', ''I'', ''A'', ''K'', ''D''],
         [''S'', ''H'', ''A'', ''I'', ''M'', ''E'']]
   \<and> rectangular (load_grid (''W I S D O M'' @ [CHR 0x0A] @ ''B C I A K D'' @ [CHR 0x0A] @ ''S H A I M E'' @ [CHR 0x0A])) 3 6
   \<and> load_words (''WISDOM'' @ [CHR 0x0A]) = [''WISDOM'']
   \<and> search_for_words (load_grid (''W I S D O M'' @ [CHR 0x0A] @ ''B C I A K D'' @ [CHR 0x0A] @ ''S H A I M E'' @ [CHR 0x0A])) (load_words (''WISDOM'' @ [CHR 0x0A]))
       = Inr [(''WISDOM'', 1, 1, ''horizontal_right'')]
   \<and> load_grid text =
       map (\<lambda>line. filter (\<lambda>char. char \<noteq> []) (py_split (py_strip line)))
         (filter (\<lambda>line. py_strip line \<noteq> []) (py_readlines [] text))
   \<and> load_words text =
       filter (\<lambda>word. word \<noteq> [])
         (map (\<lambda>line. py_upper (py_strip line)) (py_readlines [] text))
   \<and> (\<forall>w\<in>set (load_words text). \<forall>c\<in>set w. \<not> ascii_lower c)"
proof -
  have g: "load_grid (''W I S D O M'' @ [CHR 0x0A] @ ''B C I A K D'' @ [CHR 0x0A] @ ''S H A I M E'' @ [CHR 0x0A])
     = [[''W'', ''I'', ''S'', ''D'', ''O'', ''M''],
         [''B'', ''C'', ''I'', ''A'', ''K'', ''D''],
         [''S'', ''H'', ''A'', ''I'', ''M'', ''E'']]"
    by code_simp
  have r: "rectangular (load_grid (''W I S D O M'' @ [CHR 0x0A] @ ''B C I A K D'' @ [CHR 0x0A] @ ''S H A I M E'' @ [CHR 0x0A])) 3 6"
    unfolding g by (simp add: rectangular_def)
  have w: "load_words (''WISDOM'' @ [CHR 0x0A]) = [''WISDOM'']"
    by code_simp
  have s: "search_for_words (load_grid (''W I S D O M'' @ [CHR 0x0A] @ ''B C I A K D'' @ [CHR 0x0A] @ ''S H A I M E'' @ [CHR 0x0A])) (load_words (''WISDOM'' @ [CHR 0x0A]))
       = Inr [(''WISDOM'', 1, 1, ''horizontal_right'')]"
    unfolding g w by code_simp
  have lg: "load_grid text =
       map (\<lambda>line. filter (\<lambda>char. char \<noteq> []) (py_split (py_strip line)))
         (filter (\<lambda>line. py_strip line \<noteq> []) (py_readlines [] text))"
    by (simp add: load_grid_def load_grid_loop_eq)
  have lw: "load_words text =
       filter (\<lambda>word. word \<noteq> [])
         (map (\<lambda>line. py_upper (py_strip line)) (py_readlines [] text))"
    by (simp add: load_words_def load_words_loop_eq)
  have up: "\<forall>w\<in>set (load_words text). \<forall>c\<in>set w. \<not> ascii_lower c"
    using load_words_upper by blast
  from g r w s lg lw up show ?thesis by (intro conjI)
qed

theorem load_and_search_round_trip_witness:
  "load_grid ([CHR 0x0A] @ ''W I S D O M'' @ [CHR 0x0A, CHR 0x0A] @ ''   '' @ [CHR 0x0A] @ ''B C I A K D'' @ [CHR 0x0D, CHR 0x0A] @ ''S H A I M E'')
     = [[''W'', ''I'', ''S'', ''D'', ''O'', ''M''],
         [''B'', ''C'', ''I'', ''A'', ''K'', ''D''],
         [''S'', ''H'', ''A'', ''I'', ''M'', ''E'']]
   \<and> load_words (''  wisdom '' @ [CHR 0x0A, CHR 0x0A] @ ''Wisdom'') = [''WISDOM'', ''WISDOM'']
   \<and> list_all (\<lambda>c. \<not> ascii_lower c) ''WISDOM''"
proof -
  have g: "load_grid ([CHR 0x0A] @ ''W I S D O M'' @ [CHR 0x0A, CHR 0x0A] @ ''   '' @ [CHR 0x0A] @ ''B C I A K D'' @ [CHR 0x0D, CHR 0x0A] @ ''S H A I M E'')
     = [[''W'', ''I'', ''S'', ''D'', ''O'', ''M''],
         [''B'', ''C'', ''I'', ''A'', ''K'', ''D''],
         [''S'', ''H'', ''A'', ''I'', ''M'', ''E'']]"
    by code_simp
  have w: "load_words (''  wisdom '' @ [CHR 0x0A, CHR 0x0A] @ ''Wisdom'') = [''WISDOM'', ''WISDOM'']"
    by code_simp
  from load_and_search_round_trip [of "''  wisdom '' @ [CHR 0x0A, CHR 0x0A] @ ''Wisdom''"]
  have "\<forall>w\<in>set (load_words (''  wisdom '' @ [CHR 0x0A, CHR 0x0A] @ ''Wisdom'')). \<forall>c\<in>set w. \<not> ascii_lower c"
    by (elim conjE)
  then have "list_all (\<lambda>c. \<not> ascii_lower c) ''WISDOM''"
    unfolding w by (simp add: list_all_iff)
  with g w show ?thesis by (intro conjI)
qed

end
